theory Spec2Isabelle
  imports Main
begin

section \<open>JavaScript values and errors\<close>

text \<open>
  The payload of a response is whatever \<^verbatim>\<open>res.json()\<close> parses: any JSON value. An object
  is the association list of its own properties (the first binding of a key is its value).
  A number is held as the string that the engine's conversion of numbers to strings gives
  for it (\<^verbatim>\<open>1\<close>, \<^verbatim>\<open>1.5\<close>, \<^verbatim>\<open>18446744073709552000\<close> for the double 2^64, \<^verbatim>\<open>1e+21\<close>):
  the program does nothing with a number but print it in a template literal, so the double
  behind it and the algorithm that prints it stay with the platform, as the parsing of the
  body does. A value of the program is a JSON value or \<^verbatim>\<open>undefined\<close> (\<open>None\<close>).
\<close>

type_synonym number = string

datatype json =
    JNull
  | JBool bool
  | JNum number
  | JStr string
  | JArr "json list"
  | JObj "(string \<times> json) list"

type_synonym jsval = "json option"

text \<open>
  An exception or a rejection is a value: \<open>Error m\<close> is \<^verbatim>\<open>new Error(m)\<close>; \<open>TypeError m\<close> is
  raised by the engine (the texts are those of V8, the engine of Node) or by the platform.
  A computation that may throw returns \<open>Inl\<close> of the error.
\<close>

datatype js_error = Error string | TypeError string | SyntaxError string

fun message :: "js_error \<Rightarrow> string" where
  "message (Error m) = m"
| "message (TypeError m) = m"
| "message (SyntaxError m) = m"

type_synonym 'a result = "js_error + 'a"

text \<open>\<^verbatim>\<open>xs.map(f)\<close> on the elements, left to right, stopping at the first exception.\<close>

fun map_result :: "('a \<Rightarrow> 'b result) \<Rightarrow> 'a list \<Rightarrow> 'b list result" where
  "map_result f [] = Inr []"
| "map_result f (x # xs) =
     (case f x of
        Inl e \<Rightarrow> Inl e
      | Inr y \<Rightarrow> (case map_result f xs of Inl e \<Rightarrow> Inl e | Inr ys \<Rightarrow> Inr (y # ys)))"

lemma map_result_cong [fundef_cong]:
  "xs = ys \<Longrightarrow> (\<And>x. x \<in> set ys \<Longrightarrow> f x = g x) \<Longrightarrow> map_result f xs = map_result g ys"
  by (induction ys arbitrary: xs) (auto split: sum.splits)

text \<open>
  \<^verbatim>\<open>v.map(f)\<close> for a parsed payload \<open>v\<close> held in the variable \<open>var\<close>: only an array has a
  \<^verbatim>\<open>map\<close> method (a JSON property is never callable); reading it off \<^verbatim>\<open>null\<close> throws.
\<close>

definition quoted :: "string \<Rightarrow> string" where
  "quoted s = CHR 0x27 # s @ [CHR 0x27]"

definition read_of_null :: "string \<Rightarrow> js_error" where
  "read_of_null k = TypeError (''Cannot read properties of null (reading '' @ quoted k @ '')'')"

fun js_map :: "string \<Rightarrow> (json \<Rightarrow> 'b result) \<Rightarrow> json \<Rightarrow> 'b list result" where
  "js_map var f (JArr xs) = map_result f xs"
| "js_map var f JNull = Inl (read_of_null ''map'')"
| "js_map var f v = Inl (TypeError (var @ ''.map is not a function''))"

text \<open>
  \<^verbatim>\<open>v.k\<close> for an element \<open>v\<close> of a parsed array and one of the property names the program
  reads (\<^verbatim>\<open>id\<close>, \<^verbatim>\<open>name\<close>, \<^verbatim>\<open>email\<close>, \<^verbatim>\<open>title\<close>; no built-in prototype defines them):
  an own property of an object, \<^verbatim>\<open>undefined\<close> on any other value, an exception on \<^verbatim>\<open>null\<close>.
\<close>

fun get_prop :: "json \<Rightarrow> string \<Rightarrow> jsval result" where
  "get_prop JNull k = Inl (read_of_null k)"
| "get_prop (JObj kvs) k = Inr (map_of kvs k)"
| "get_prop v k = Inr None"

subsection \<open>String conversion in template literals\<close>

text \<open>
  The decimal digits of a natural number, for the status of a response: an integer below
  1000, which the engine prints digit for digit.
\<close>

definition digit :: "nat \<Rightarrow> char" where
  "digit d = ''0123456789'' ! d"

function show_nat :: "nat \<Rightarrow> string" where
  "show_nat n = (if n < 10 then [digit n] else show_nat (n div 10) @ [digit (n mod 10)])"
  by pat_completeness auto
termination
  by (relation "measure (\<lambda>n. n)") auto

declare show_nat.simps [simp del]

fun join :: "string \<Rightarrow> string list \<Rightarrow> string" where
  "join sep [] = []"
| "join sep [s] = s"
| "join sep (s # ss) = s @ sep @ join sep ss"

text \<open>
  \<^verbatim>\<open>`${v}`\<close> for a JSON value: a primitive prints itself; an array is joined with commas,
  \<^verbatim>\<open>null\<close> elements printing as the empty string; an object prints through
  \<^verbatim>\<open>Object.prototype.toString\<close> unless an own property \<^verbatim>\<open>toString\<close> hides it, and then no
  callable conversion is left and the engine throws.
\<close>

fun to_string :: "json \<Rightarrow> string result" where
  "to_string JNull = Inr ''null''"
| "to_string (JBool b) = Inr (if b then ''true'' else ''false'')"
| "to_string (JNum n) = Inr n"
| "to_string (JStr s) = Inr s"
| "to_string (JArr xs) =
     (case map_result (\<lambda>x. if x = JNull then Inr [] else to_string x) xs of
        Inl e \<Rightarrow> Inl e
      | Inr ss \<Rightarrow> Inr (join '','' ss))"
| "to_string (JObj kvs) =
     (if map_of kvs ''toString'' = None then Inr ''[object Object]''
      else Inl (TypeError ''Cannot convert object to primitive value''))"

fun template :: "jsval \<Rightarrow> string result" where
  "template None = Inr ''undefined''"
| "template (Some v) = to_string v"

section \<open>The platform: fetch and the console\<close>

text \<open>
  A settled \<^verbatim>\<open>Response\<close>: its status and the outcome of \<^verbatim>\<open>res.json()\<close> (the parsed body, or
  the rejection). \<^verbatim>\<open>res.ok\<close> is the getter of the Fetch standard: the status is in 200..299.
  The network is a function from the URL to the settled promise of \<^verbatim>\<open>_fetch(url)\<close>: a
  rejection or a response. A run in which a promise never settles is outside the model.
\<close>

record response =
  status :: nat
  body :: "json result"

definition ok :: "response \<Rightarrow> bool" where
  "ok res = (200 \<le> status res \<and> status res \<le> 299)"

type_synonym network = "string \<Rightarrow> response result"

text \<open>
  What a run does to the outside, in order: the requests it issues, the bodies it reads,
  and one event for each \<^verbatim>\<open>console.log\<close> or \<^verbatim>\<open>console.error\<close> of the source, holding the
  interpolated values of its line.
\<close>

datatype event =
    HttpGet string
  | ReadJson string
  | LogUsersReceived nat
  | LogUserSelected string string string
  | LogUserPosts nat
  | LogFirstPost string string
  | LogChainError string
  | LogFinalize
  | LogResultHeader
  | LogResultUser string string string
  | LogResultPost string string
  | LogResultComments nat
  | LogResultFirstComment string string string
  | LogResultFooter

text \<open>Code with effects that returns or throws: the log before, the outcome and the log after.\<close>

type_synonym 'a action = "event list \<Rightarrow> 'a result \<times> event list"

type_synonym effect = "event list \<Rightarrow> event list"

definition emit :: "event \<Rightarrow> effect" where
  "emit ev t = t @ [ev]"

definition throw :: "js_error \<Rightarrow> 'a action" where
  "throw e t = (Inl e, t)"

text \<open>One statement after the other; an exception of the first skips the second.\<close>

definition seq :: "unit action \<Rightarrow> 'a action \<Rightarrow> 'a action" where
  "seq a b t = (case a t of (Inl e, t1) \<Rightarrow> (Inl e, t1) | (Inr u, t1) \<Rightarrow> b t1)"

text \<open>
  A template literal with one, two or three interpolations, converted left to right: the
  first conversion that throws ends the evaluation.
\<close>

definition fill1 :: "(string \<Rightarrow> 'a) \<Rightarrow> jsval \<Rightarrow> 'a result" where
  "fill1 k a = (case template a of Inl e \<Rightarrow> Inl e | Inr x \<Rightarrow> Inr (k x))"

definition fill2 :: "(string \<Rightarrow> string \<Rightarrow> 'a) \<Rightarrow> jsval \<Rightarrow> jsval \<Rightarrow> 'a result" where
  "fill2 k a b =
     (case template a of
        Inl e \<Rightarrow> Inl e
      | Inr x \<Rightarrow> (case template b of Inl e \<Rightarrow> Inl e | Inr y \<Rightarrow> Inr (k x y)))"

definition fill3 :: "(string \<Rightarrow> string \<Rightarrow> string \<Rightarrow> 'a) \<Rightarrow> jsval \<Rightarrow> jsval \<Rightarrow> jsval \<Rightarrow> 'a result" where
  "fill3 k a b c =
     (case template a of
        Inl e \<Rightarrow> Inl e
      | Inr x \<Rightarrow>
          (case template b of
             Inl e \<Rightarrow> Inl e
           | Inr y \<Rightarrow> (case template c of Inl e \<Rightarrow> Inl e | Inr z \<Rightarrow> Inr (k x y z))))"

text \<open>
  \<^verbatim>\<open>console.log(line)\<close>: the argument is evaluated first, and an exception there leaves
  the console untouched.
\<close>

definition log_line :: "event result \<Rightarrow> unit action" where
  "log_line line t = (case line of Inl e \<Rightarrow> (Inl e, t) | Inr ev \<Rightarrow> (Inr (), emit ev t))"

section \<open>Observables and the operators of the pipeline\<close>

text \<open>
  Subscribed, an observable delivers values in order and then completes or fails:
  \<open>Emitted vs Complete\<close> or \<open>Emitted vs (Failure e)\<close>. Subscribing an observable at a log
  gives what it delivers, the log at the moment the last notification reaches the end of
  the chain, and the finalizers registered on the way, which run at teardown, after the
  subscriber has seen the notifications.
\<close>

datatype ending = Complete | Failure js_error

datatype 'a emitted = Emitted "'a list" ending

type_synonym 'a observable = "event list \<Rightarrow> 'a emitted \<times> event list \<times> effect"

text \<open>
  The two shapes a promise gives: one value and completion, or a failure before any
  value. That every stage of the pipe has one of them is proved, not assumed: the
  operators below take any number of values.
\<close>

abbreviation Next :: "'a \<Rightarrow> 'a emitted" where
  "Next v \<equiv> Emitted [v] Complete"

abbreviation Failed :: "js_error \<Rightarrow> 'a emitted" where
  "Failed e \<equiv> Emitted [] (Failure e)"

fun single_shot :: "'a emitted \<Rightarrow> bool" where
  "single_shot (Emitted [v] Complete) = True"
| "single_shot (Emitted [] (Failure e)) = True"
| "single_shot n = False"

definition from_promise :: "'a result \<Rightarrow> 'a observable" where
  "from_promise p t =
     ((case p of Inl e \<Rightarrow> Emitted [] (Failure e) | Inr v \<Rightarrow> Emitted [v] Complete), t, (\<lambda>l. l))"

definition of_value :: "'a \<Rightarrow> 'a observable" where
  "of_value v t = (Emitted [v] Complete, t, (\<lambda>l. l))"

definition throwError :: "js_error \<Rightarrow> 'a observable" where
  "throwError e t = (Emitted [] (Failure e), t, (\<lambda>l. l))"

text \<open>
  \<^verbatim>\<open>map(project)\<close>: each value is replaced by its image; an exception of the project
  function ends the observable with that error, and the values after it are dropped.
\<close>

fun map_values :: "('a \<Rightarrow> 'b result) \<Rightarrow> 'a list \<Rightarrow> ending \<Rightarrow> 'b emitted" where
  "map_values f [] end = Emitted [] end"
| "map_values f (v # vs) end =
     (case f v of
        Inl e \<Rightarrow> Emitted [] (Failure e)
      | Inr w \<Rightarrow> (case map_values f vs end of Emitted ws end' \<Rightarrow> Emitted (w # ws) end'))"

definition map_op :: "('a \<Rightarrow> 'b result) \<Rightarrow> 'a observable \<Rightarrow> 'b observable" where
  "map_op f src t =
     (case src t of (Emitted vs end, t1, fin) \<Rightarrow> (map_values f vs end, t1, fin))"

text \<open>
  \<^verbatim>\<open>tap(callback)\<close>: the callback runs on each value, which is then passed on unchanged;
  an exception of the callback ends the observable with that error.
\<close>

fun tap_values :: "('a \<Rightarrow> unit action) \<Rightarrow> 'a list \<Rightarrow> ending \<Rightarrow> event list \<Rightarrow> 'a emitted \<times> event list" where
  "tap_values cb [] end t = (Emitted [] end, t)"
| "tap_values cb (v # vs) end t =
     (case cb v t of
        (Inl e, t1) \<Rightarrow> (Emitted [] (Failure e), t1)
      | (Inr u, t1) \<Rightarrow>
          (case tap_values cb vs end t1 of (Emitted ws end', t2) \<Rightarrow> (Emitted (v # ws) end', t2)))"

definition tap :: "('a \<Rightarrow> unit action) \<Rightarrow> 'a observable \<Rightarrow> 'a observable" where
  "tap cb src t =
     (case src t of
        (Emitted vs end, t1, fin) \<Rightarrow>
          (case tap_values cb vs end t1 of (n, t2) \<Rightarrow> (n, t2, fin)))"

text \<open>
  \<^verbatim>\<open>switchMap(project)\<close>: the project function runs on a value and the observable it
  returns is subscribed at once; its values are passed on, and its failure ends the
  whole. An exception of the project function is the failure of the observable it stands
  for. For two or more outer values the equations give the run in which each inner
  observable has completed before the next outer value arrives; the run in which an
  inner request is still pending then, and is cancelled, depends on timing and is not
  described. No stage of this program delivers two values, as \<open>within_chain\<close> shows.
\<close>

fun switch_values :: "('a \<Rightarrow> 'b observable) \<Rightarrow> 'a list \<Rightarrow> ending \<Rightarrow> 'b observable" where
  "switch_values project [] end t = (Emitted [] end, t, (\<lambda>l. l))"
| "switch_values project (v # vs) end t =
     (case project v t of
        (Emitted ws (Failure e), t1, fin1) \<Rightarrow> (Emitted ws (Failure e), t1, fin1)
      | (Emitted ws Complete, t1, fin1) \<Rightarrow>
          (case switch_values project vs end t1 of
             (Emitted ws' end', t2, fin2) \<Rightarrow> (Emitted (ws @ ws') end', t2, (\<lambda>l. fin2 (fin1 l)))))"

definition switchMap :: "('a \<Rightarrow> 'b observable) \<Rightarrow> 'a observable \<Rightarrow> 'b observable" where
  "switchMap project src t =
     (case src t of
        (Emitted vs end, t1, fin) \<Rightarrow>
          (case switch_values project vs end t1 of (n, t2, fin2) \<Rightarrow> (n, t2, (\<lambda>l. fin (fin2 l)))))"

text \<open>
  \<^verbatim>\<open>catchError(selector)\<close>: a source that completes is passed on; when it fails, the
  observable the selector returns for the error takes over after the values already
  delivered.
\<close>

definition catchError :: "(js_error \<Rightarrow> 'a observable) \<Rightarrow> 'a observable \<Rightarrow> 'a observable" where
  "catchError selector src t =
     (case src t of
        (Emitted vs Complete, t1, fin) \<Rightarrow> (Emitted vs Complete, t1, fin)
      | (Emitted vs (Failure e), t1, fin) \<Rightarrow>
          (case selector e t1 of
             (Emitted ws end, t2, fin2) \<Rightarrow> (Emitted (vs @ ws) end, t2, (\<lambda>l. fin (fin2 l)))))"

definition finalize :: "effect \<Rightarrow> 'a observable \<Rightarrow> 'a observable" where
  "finalize callback src t =
     (case src t of (n, t1, fin) \<Rightarrow> (n, t1, (\<lambda>l. callback (fin l))))"

text \<open>
  \<^verbatim>\<open>source.subscribe(next)\<close> with no error handler: the values are handed to \<^verbatim>\<open>next\<close> in
  order, then the finalizers run. The result is the final log and the first error nobody
  handled, if any (an exception of \<^verbatim>\<open>next\<close>, which ends the delivery here, or the failure
  of the source).
\<close>

fun deliver :: "('a \<Rightarrow> unit action) \<Rightarrow> 'a list \<Rightarrow> event list \<Rightarrow> js_error option \<times> event list" where
  "deliver nxt [] t = (None, t)"
| "deliver nxt (v # vs) t =
     (case nxt v t of
        (Inl e, t1) \<Rightarrow> (Some e, t1)
      | (Inr u, t1) \<Rightarrow> deliver nxt vs t1)"

definition subscribe :: "'a observable \<Rightarrow> ('a \<Rightarrow> unit action) \<Rightarrow> event list \<Rightarrow> event list \<times> js_error option" where
  "subscribe src nxt t =
     (case src t of
        (Emitted vs end, t1, fin) \<Rightarrow>
          (case deliver nxt vs t1 of
             (Some e, t2) \<Rightarrow> (fin t2, Some e)
           | (None, t2) \<Rightarrow> (fin t2, (case end of Complete \<Rightarrow> None | Failure e \<Rightarrow> Some e))))"

section \<open>The program\<close>

subsection \<open>The objects it builds\<close>

record user =
  user_id :: jsval
  user_name :: jsval
  user_email :: jsval

record post =
  post_id :: jsval
  post_title :: jsval

record comment =
  comment_id :: jsval
  comment_name :: jsval
  comment_email :: jsval

record pipeline_result =
  user :: user
  post :: post
  comments :: "comment list"

text \<open>\<^verbatim>\<open>(u) => ({ id: u.id, name: u.name, email: u.email })\<close>, and the two like it.\<close>

definition project_user :: "json \<Rightarrow> user result" where
  "project_user u =
     (case get_prop u ''id'' of
        Inl e \<Rightarrow> Inl e
      | Inr i \<Rightarrow>
          (case get_prop u ''name'' of
             Inl e \<Rightarrow> Inl e
           | Inr n \<Rightarrow>
               (case get_prop u ''email'' of
                  Inl e \<Rightarrow> Inl e
                | Inr m \<Rightarrow> Inr \<lparr>user_id = i, user_name = n, user_email = m\<rparr>)))"

definition project_post :: "json \<Rightarrow> post result" where
  "project_post p =
     (case get_prop p ''id'' of
        Inl e \<Rightarrow> Inl e
      | Inr i \<Rightarrow>
          (case get_prop p ''title'' of
             Inl e \<Rightarrow> Inl e
           | Inr ttl \<Rightarrow> Inr \<lparr>post_id = i, post_title = ttl\<rparr>))"

definition project_comment :: "json \<Rightarrow> comment result" where
  "project_comment c =
     (case get_prop c ''id'' of
        Inl e \<Rightarrow> Inl e
      | Inr i \<Rightarrow>
          (case get_prop c ''name'' of
             Inl e \<Rightarrow> Inl e
           | Inr n \<Rightarrow>
               (case get_prop c ''email'' of
                  Inl e \<Rightarrow> Inl e
                | Inr m \<Rightarrow> Inr \<lparr>comment_id = i, comment_name = n, comment_email = m\<rparr>)))"

subsection \<open>The three lookups\<close>

definition httpGetJson :: "network \<Rightarrow> string \<Rightarrow> json observable" where
  "httpGetJson net url =
     switchMap
       (\<lambda>res.
          if \<not> ok res then throwError (Error (''HTTP '' @ show_nat (status res) @ '' en '' @ url))
          else (\<lambda>t. from_promise (body res) (emit (ReadJson url) t)))
       (\<lambda>t. from_promise (net url) (emit (HttpGet url) t))"

definition users_url :: string where
  "users_url = ''https://jsonplaceholder.typicode.com/users''"

definition posts_url :: "string \<Rightarrow> string" where
  "posts_url userId = ''https://jsonplaceholder.typicode.com/users/'' @ userId @ ''/posts''"

definition comments_url :: "string \<Rightarrow> string" where
  "comments_url postId = ''https://jsonplaceholder.typicode.com/posts/'' @ postId @ ''/comments''"

definition getUsers :: "network \<Rightarrow> user list observable" where
  "getUsers net = map_op (js_map ''users'' project_user) (httpGetJson net users_url)"

text \<open>
  The URL is a template literal over the identifier. Both functions are called inside a
  project function of \<^verbatim>\<open>switchMap\<close>, so an exception of the literal is the failure of the
  observable.
\<close>

definition getUserPosts :: "network \<Rightarrow> jsval \<Rightarrow> json observable" where
  "getUserPosts net userId =
     (case fill1 posts_url userId of
        Inl e \<Rightarrow> throwError e
      | Inr url \<Rightarrow> httpGetJson net url)"

definition getPostComments :: "network \<Rightarrow> jsval \<Rightarrow> json observable" where
  "getPostComments net postId =
     (case fill1 comments_url postId of
        Inl e \<Rightarrow> throwError e
      | Inr url \<Rightarrow> httpGetJson net url)"

subsection \<open>The callbacks of the pipe, in the order of the source\<close>

definition log_users :: "user list \<Rightarrow> unit action" where
  "log_users users = log_line (Inr (LogUsersReceived (length users)))"

text \<open>\<^verbatim>\<open>users[0]\<close>: the first element, \<^verbatim>\<open>undefined\<close> on the empty array.\<close>

definition first_user :: "user list \<Rightarrow> user option result" where
  "first_user users = Inr (case users of [] \<Rightarrow> None | u # rest \<Rightarrow> Some u)"

definition check_user :: "user option \<Rightarrow> unit action" where
  "check_user usr =
     (case usr of
        None \<Rightarrow> throw (Error ''No hay usuarios disponibles.'')
      | Some u \<Rightarrow> log_line (fill3 LogUserSelected (user_id u) (user_name u) (user_email u)))"

definition posts_of_user :: "network \<Rightarrow> user option \<Rightarrow> (user \<times> post list) observable" where
  "posts_of_user net usr =
     (case usr of
        None \<Rightarrow> throwError (TypeError (''Cannot read properties of undefined (reading '' @ quoted ''id'' @ '')''))
      | Some u \<Rightarrow>
          map_op
            (\<lambda>posts.
               case js_map ''posts'' project_post posts of
                 Inl e \<Rightarrow> Inl e
               | Inr ps \<Rightarrow> Inr (u, ps))
            (getUserPosts net (user_id u)))"

definition log_posts :: "user \<times> post list \<Rightarrow> unit action" where
  "log_posts up = log_line (Inr (LogUserPosts (length (snd up))))"

text \<open>
  The value the pipe delivers is a result object or, after recovery, \<^verbatim>\<open>null\<close>: the object
  built here is \<open>Some\<close> of the record.
\<close>

definition comments_of_first_post :: "network \<Rightarrow> user \<times> post list \<Rightarrow> pipeline_result option observable" where
  "comments_of_first_post net up =
     (case snd up of
        [] \<Rightarrow> throwError (Error ''El usuario no tiene publicaciones.'')
      | firstPost # rest \<Rightarrow>
          (case fill2 LogFirstPost (post_id firstPost) (post_title firstPost) of
             Inl e \<Rightarrow> throwError e
           | Inr line \<Rightarrow>
               (\<lambda>t. map_op
                  (\<lambda>cs.
                     case js_map ''comments'' project_comment cs of
                       Inl e \<Rightarrow> Inl e
                     | Inr cms \<Rightarrow> Inr (Some \<lparr>user = fst up, post = firstPost, comments = cms\<rparr>))
                  (getPostComments net (post_id firstPost))
                  (emit line t))))"

definition recover :: "js_error \<Rightarrow> pipeline_result option observable" where
  "recover err t = of_value None (emit (LogChainError (message err)) t)"

definition on_finalize :: effect where
  "on_finalize = emit LogFinalize"

subsection \<open>The pipe and its subscription\<close>

text \<open>The operators of \<^verbatim>\<open>flow$\<close> before \<^verbatim>\<open>catchError\<close>.\<close>

definition chain :: "network \<Rightarrow> pipeline_result option observable" where
  "chain net =
     (let s0 = getUsers net;
          s1 = tap log_users s0;
          s2 = map_op first_user s1;
          s3 = tap check_user s2;
          s4 = switchMap (posts_of_user net) s3;
          s5 = tap log_posts s4;
          s6 = switchMap (comments_of_first_post net) s5
      in s6)"

definition flow :: "network \<Rightarrow> pipeline_result option observable" where
  "flow net =
     (let s0 = getUsers net;
          s1 = tap log_users s0;
          s2 = map_op first_user s1;
          s3 = tap check_user s2;
          s4 = switchMap (posts_of_user net) s3;
          s5 = tap log_posts s4;
          s6 = switchMap (comments_of_first_post net) s5;
          s7 = catchError recover s6;
          s8 = finalize on_finalize s7
      in s8)"

text \<open>\<^verbatim>\<open>comments[0]\<close> is an object the program built, so it is truthy whenever it exists.\<close>

definition on_result :: "pipeline_result option \<Rightarrow> unit action" where
  "on_result r =
     (case r of
        None \<Rightarrow> (\<lambda>t. (Inr (), t))
      | Some res \<Rightarrow>
          seq (log_line (Inr LogResultHeader))
         (seq (log_line (fill3 LogResultUser (user_id (user res)) (user_name (user res)) (user_email (user res))))
         (seq (log_line (fill2 LogResultPost (post_id (post res)) (post_title (post res))))
         (seq (log_line (Inr (LogResultComments (length (comments res)))))
         (seq (case comments res of
                 [] \<Rightarrow> (\<lambda>t. (Inr (), t))
               | c # rest \<Rightarrow>
                   log_line (fill3 LogResultFirstComment (comment_id c) (comment_name c) (comment_email c)))
              (log_line (Inr LogResultFooter)))))))"

text \<open>A run of the program: the subscription of \<^verbatim>\<open>flow$\<close> on an empty log.\<close>

definition run :: "network \<Rightarrow> event list \<times> js_error option" where
  "run net = subscribe (flow net) on_result []"

text \<open>What the subscriber of a run is given.\<close>

definition delivered :: "network \<Rightarrow> pipeline_result option emitted" where
  "delivered net = fst (flow net [])"

text \<open>
  The payload a lookup of \<open>url\<close> delivers, if it delivers one: the promise of the fetch
  resolves, the response is \<^verbatim>\<open>ok\<close> and its body parses.
\<close>

definition payload :: "network \<Rightarrow> string \<Rightarrow> json option" where
  "payload net url =
     (case net url of
        Inl e \<Rightarrow> None
      | Inr res \<Rightarrow> if ok res then (case body res of Inl e \<Rightarrow> None | Inr j \<Rightarrow> Some j) else None)"

section \<open>Describing logs\<close>

text \<open>
  The events of the stages before recovery, and the properties the proofs compose over
  the operators: code (or an observable) only appends events of a given kind to the log,
  and an observable registers no finalizer and delivers one value and completes, or fails
  before any value.
\<close>

fun pipeline_event :: "event \<Rightarrow> bool" where
  "pipeline_event (HttpGet u) = True"
| "pipeline_event (ReadJson u) = True"
| "pipeline_event (LogUsersReceived n) = True"
| "pipeline_event (LogUserSelected i n m) = True"
| "pipeline_event (LogUserPosts n) = True"
| "pipeline_event (LogFirstPost i ttl) = True"
| "pipeline_event ev = False"

definition acts_within :: "(event \<Rightarrow> bool) \<Rightarrow> 'a action \<Rightarrow> bool" where
  "acts_within P a = (\<forall>t. \<exists>r es. a t = (r, t @ es) \<and> list_all P es)"

definition within :: "(event \<Rightarrow> bool) \<Rightarrow> 'a observable \<Rightarrow> bool" where
  "within P obs =
     (\<forall>t. \<exists>n es. obs t = (n, t @ es, (\<lambda>l. l)) \<and> list_all P es \<and> single_shot n)"

fun is_chain_error :: "event \<Rightarrow> bool" where
  "is_chain_error (LogChainError m) = True"
| "is_chain_error ev = False"

text \<open>
  For a given URL and error: an observable whose log holds the request of that URL only
  as its last event, and then fails with that error; and code that issues no request of
  that URL.
\<close>

definition stops_at :: "string \<Rightarrow> js_error \<Rightarrow> 'a observable \<Rightarrow> bool" where
  "stops_at url e obs =
     (\<forall>t. \<exists>n es. obs t = (n, t @ es, (\<lambda>l. l)) \<and> single_shot n \<and>
        (HttpGet url \<in> set es \<longrightarrow> n = Failed e \<and> (\<exists>pre. es = pre @ [HttpGet url])))"

definition quiet :: "string \<Rightarrow> 'a action \<Rightarrow> bool" where
  "quiet url a = (\<forall>t. \<exists>r es. a t = (r, t @ es) \<and> HttpGet url \<notin> set es)"

text \<open>
  Two networks agree on the requests of a log; and an observable built on the second
  network does what the one built on the first does, wherever the two networks agree on
  the requests the first one makes.
\<close>

definition agree_on :: "network \<Rightarrow> network \<Rightarrow> event list \<Rightarrow> bool" where
  "agree_on net net' es = (\<forall>url. HttpGet url \<in> set es \<longrightarrow> net' url = net url)"


text \<open>The lines of the subscriber.\<close>

fun result_event :: "event \<Rightarrow> bool" where
  "result_event LogResultHeader = True"
| "result_event (LogResultUser i n m) = True"
| "result_event (LogResultPost i ttl) = True"
| "result_event (LogResultComments n) = True"
| "result_event (LogResultFirstComment i n m) = True"
| "result_event LogResultFooter = True"
| "result_event ev = False"

section \<open>Example networks\<close>

definition ok_json :: "json \<Rightarrow> response result" where
  "ok_json j = Inr \<lparr>status = 200, body = Inr j\<rparr>"

definition unreachable :: "response result" where
  "unreachable = Inl (TypeError ''fetch failed'')"

text \<open>The end-to-end scenario of the specification: one user, one post, one comment.\<close>

definition example_net :: network where
  "example_net url =
     (if url = ''https://jsonplaceholder.typicode.com/users'' then
        ok_json (JArr [JObj [(''id'', JNum ''1''), (''name'', JStr ''Leanne''), (''email'', JStr ''a@b.com'')]])
      else if url = ''https://jsonplaceholder.typicode.com/users/1/posts'' then
        ok_json (JArr [JObj [(''id'', JNum ''1''), (''title'', JStr ''T1'')]])
      else if url = ''https://jsonplaceholder.typicode.com/posts/1/comments'' then
        ok_json (JArr [JObj [(''id'', JNum ''1''), (''name'', JStr ''C''), (''email'', JStr ''c@d.com'')]])
      else unreachable)"

text \<open>No users at all.\<close>

definition no_users_net :: network where
  "no_users_net url =
     (if url = ''https://jsonplaceholder.typicode.com/users'' then ok_json (JArr [])
      else unreachable)"



text \<open>A server that refuses the users lookup, and one that refuses the lookup of the posts.\<close>

definition status_500_net :: network where
  "status_500_net url =
     (if url = ''https://jsonplaceholder.typicode.com/users'' then
        Inr \<lparr>status = 500, body = Inr (JArr [])\<rparr>
      else unreachable)"

definition posts_404_net :: network where
  "posts_404_net url =
     (if url = ''https://jsonplaceholder.typicode.com/users'' then
        ok_json (JArr [JObj [(''id'', JNum ''1''), (''name'', JStr ''Leanne''), (''email'', JStr ''a@b.com'')]])
      else if url = ''https://jsonplaceholder.typicode.com/users/1/posts'' then
        Inr \<lparr>status = 404, body = Inr (JObj [])\<rparr>
      else unreachable)"



section \<open>How the operators extend the log\<close>

lemma acts_within_log_line: "(\<And>ev. line = Inr ev \<Longrightarrow> P ev) \<Longrightarrow> acts_within P (log_line line)"
  by (cases line) (auto simp: acts_within_def log_line_def emit_def)

lemma acts_within_throw: "acts_within P (throw e)"
  by (simp add: acts_within_def throw_def)

lemma acts_within_skip: "acts_within P (\<lambda>t. (Inr (), t))"
  by (simp add: acts_within_def)

lemma acts_within_seq:
  assumes "acts_within P a" and "acts_within P b"
  shows "acts_within P (seq a b)"
  unfolding acts_within_def
proof
  fix t
  from assms(1) obtain r es where a: "a t = (r, t @ es)" "list_all P es"
    unfolding acts_within_def by blast
  from assms(2) obtain r' es' where b: "b (t @ es) = (r', (t @ es) @ es')" "list_all P es'"
    unfolding acts_within_def by blast
  show "\<exists>r es. seq a b t = (r, t @ es) \<and> list_all P es"
  proof (cases r)
    case (Inl e)
    with a show ?thesis by (auto simp: seq_def)
  next
    case (Inr u)
    with a b have "seq a b t = (r', t @ (es @ es'))" by (simp add: seq_def)
    with a b show ?thesis by (metis list_all_append)
  qed
qed

lemma single_shot_cases [consumes 1, case_names Next Failed]:
  assumes "single_shot n"
  obtains (Next) v where "n = Emitted [v] Complete" | (Failed) e where "n = Emitted [] (Failure e)"
  using assms by (cases n rule: single_shot.cases) simp_all

lemma single_shot_simps [simp]:
  "single_shot (case r of Inl e \<Rightarrow> Emitted [] (Failure e) | Inr v \<Rightarrow> Emitted [v] Complete)"
  by (cases r) simp_all

lemma within_runE:
  assumes "within P obs"
  obtains n es where "obs t = (n, t @ es, (\<lambda>l. l))" and "list_all P es" and "single_shot n"
  using assms unfolding within_def by blast

lemma within_emit_from: "P ev \<Longrightarrow> within P (\<lambda>t. from_promise p (emit ev t))"
  by (simp add: within_def from_promise_def emit_def)

lemma within_throwError: "within P (throwError e)"
  by (simp add: within_def throwError_def)

lemma within_map_op:
  assumes "within P src"
  shows "within P (map_op f src)"
  unfolding within_def
proof
  fix t
  from assms obtain n es where s: "src t = (n, t @ es, (\<lambda>l. l))" "list_all P es"
    and ss: "single_shot n"
    by (rule within_runE)
  from ss show "\<exists>n es. map_op f src t = (n, t @ es, (\<lambda>l. l)) \<and> list_all P es \<and> single_shot n"
  proof (cases rule: single_shot_cases)
    case (Failed e)
    with s show ?thesis by (simp add: map_op_def)
  next
    case (Next v)
    with s show ?thesis by (cases "f v") (simp_all add: map_op_def)
  qed
qed

lemma within_tap:
  assumes "within P src" and "\<And>v. acts_within P (cb v)"
  shows "within P (tap cb src)"
  unfolding within_def
proof
  fix t
  from assms(1) obtain n es where s: "src t = (n, t @ es, (\<lambda>l. l))" "list_all P es"
    and ss: "single_shot n"
    by (rule within_runE)
  from ss show "\<exists>n es. tap cb src t = (n, t @ es, (\<lambda>l. l)) \<and> list_all P es \<and> single_shot n"
  proof (cases rule: single_shot_cases)
    case (Failed e)
    with s show ?thesis by (simp add: tap_def)
  next
    case (Next v)
    from assms(2) [of v] obtain r es' where c: "cb v (t @ es) = (r, (t @ es) @ es')" "list_all P es'"
      unfolding acts_within_def by blast
    with s Next show ?thesis
      by (cases r) (auto simp: tap_def intro: exI [of _ "es @ es'"])
  qed
qed

lemma within_switchMap:
  assumes "within P src" and "\<And>v. within P (project v)"
  shows "within P (switchMap project src)"
  unfolding within_def
proof
  fix t
  from assms(1) obtain n es where s: "src t = (n, t @ es, (\<lambda>l. l))" "list_all P es"
    and ss: "single_shot n"
    by (rule within_runE)
  from ss show "\<exists>n es. switchMap project src t = (n, t @ es, (\<lambda>l. l)) \<and> list_all P es \<and> single_shot n"
  proof (cases rule: single_shot_cases)
    case (Failed e)
    with s show ?thesis by (simp add: switchMap_def)
  next
    case (Next v)
    from assms(2) [of v] obtain n' es' where c: "project v (t @ es) = (n', (t @ es) @ es', (\<lambda>l. l))"
      "list_all P es'" and ss': "single_shot n'"
      by (rule within_runE)
    from ss' show ?thesis
    proof (cases rule: single_shot_cases)
      case Failed
      with s Next c show ?thesis
        by (auto simp: switchMap_def intro: exI [of _ "es @ es'"])
    next
      case Next
      with s \<open>n = Emitted [v] Complete\<close> c show ?thesis
        by (auto simp: switchMap_def intro: exI [of _ "es @ es'"])
    qed
  qed
qed

lemma within_httpGetJson:
  "P (HttpGet url) \<Longrightarrow> P (ReadJson url) \<Longrightarrow> within P (httpGetJson net url)"
  unfolding httpGetJson_def
  by (intro within_switchMap within_emit_from) (auto intro: within_throwError within_emit_from)

lemma within_getUsers: "within pipeline_event (getUsers net)"
  unfolding getUsers_def by (intro within_map_op within_httpGetJson) simp_all

lemma within_getUserPosts: "within pipeline_event (getUserPosts net i)"
  unfolding getUserPosts_def
  by (auto split: sum.splits intro: within_throwError within_httpGetJson)

lemma within_getPostComments: "within pipeline_event (getPostComments net i)"
  unfolding getPostComments_def
  by (auto split: sum.splits intro: within_throwError within_httpGetJson)

lemma within_posts_of_user: "within pipeline_event (posts_of_user net usr)"
  unfolding posts_of_user_def
  by (auto split: option.splits intro: within_throwError within_map_op within_getUserPosts)

lemma within_emit_then:
  assumes "P ev" and "within P obs"
  shows "within P (\<lambda>t. obs (emit ev t))"
  unfolding within_def
proof
  fix t
  from assms(2) obtain n es where "obs (t @ [ev]) = (n, (t @ [ev]) @ es, (\<lambda>l. l))"
    "list_all P es" "single_shot n"
    by (rule within_runE)
  with assms(1) show "\<exists>n es. obs (emit ev t) = (n, t @ es, (\<lambda>l. l)) \<and> list_all P es \<and> single_shot n"
    by (auto simp: emit_def intro: exI [of _ "ev # es"])
qed

lemma fill2_LogFirstPost: "fill2 LogFirstPost a b = Inr line \<Longrightarrow> pipeline_event line"
  by (auto simp: fill2_def split: sum.splits)

lemma fill3_LogUserSelected: "fill3 LogUserSelected a b c = Inr line \<Longrightarrow> pipeline_event line"
  by (auto simp: fill3_def split: sum.splits)

lemma within_comments_of_first_post: "within pipeline_event (comments_of_first_post net up)"
  unfolding comments_of_first_post_def
  by (auto split: list.splits sum.splits
      intro!: within_throwError within_emit_then within_map_op within_getPostComments
      dest: fill2_LogFirstPost)

lemma within_chain: "within pipeline_event (chain net)"
  unfolding chain_def Let_def
  by (intro within_switchMap within_tap within_map_op within_getUsers within_posts_of_user
      within_comments_of_first_post)
    (auto simp: log_users_def log_posts_def check_user_def split: option.splits
      intro!: acts_within_log_line acts_within_throw dest: fill3_LogUserSelected)

lemma flow_chain: "flow net = finalize on_finalize (catchError recover (chain net))"
  by (simp add: flow_def chain_def Let_def)

lemma fill3_LogResultUser: "fill3 LogResultUser a b c = Inr line \<Longrightarrow> result_event line"
  by (auto simp: fill3_def split: sum.splits)

lemma fill3_LogResultFirstComment: "fill3 LogResultFirstComment a b c = Inr line \<Longrightarrow> result_event line"
  by (auto simp: fill3_def split: sum.splits)

lemma fill2_LogResultPost: "fill2 LogResultPost a b = Inr line \<Longrightarrow> result_event line"
  by (auto simp: fill2_def split: sum.splits)

lemma acts_within_on_result: "acts_within result_event (on_result r)"
  unfolding on_result_def
  by (auto split: option.splits list.splits
      intro!: acts_within_seq acts_within_log_line acts_within_skip
      dest: fill3_LogResultUser fill3_LogResultFirstComment fill2_LogResultPost)

lemma chain_shape:
  obtains n es where "chain net t = (n, t @ es, (\<lambda>l. l))" and "list_all pipeline_event es"
    and "single_shot n"
  using within_chain [of net] by (rule within_runE)

lemma on_result_shape:
  obtains x es where "on_result r t = (x, t @ es)" and "list_all result_event es"
  using acts_within_on_result [of r] unfolding acts_within_def by blast

lemma pipeline_event_not_error: "list_all pipeline_event es \<Longrightarrow> filter is_chain_error es = []"
  by (induction es) (auto elim: pipeline_event.elims)

lemma result_event_not_error: "list_all result_event es \<Longrightarrow> filter is_chain_error es = []"
  by (induction es) (auto elim: result_event.elims)

lemma pipeline_event_not_finalize: "list_all pipeline_event es \<Longrightarrow> LogFinalize \<notin> set es"
  by (induction es) auto

lemma result_event_not_finalize: "list_all result_event es \<Longrightarrow> LogFinalize \<notin> set es"
  by (induction es) auto

section \<open>Recovery and finalization\<close>

text \<open>
  C2. Whatever the network answers, the pipe never fails towards its subscriber: it
  delivers exactly one value and completes. When the stages before \<^verbatim>\<open>catchError\<close> deliver a value, that value is
  delivered and no error line is printed in the run. When they fail with an error
  (a rejected or refused fetch, an unreadable body, an empty collection, an exception of a
  callback), the subscriber is given \<^verbatim>\<open>null\<close> and the run prints exactly one error line,
  with the message of that error.
\<close>

theorem errors_recovered:
  "(\<exists>v. fst (flow net t) = Emitted [v] Complete) \<and>
   (case fst (chain net []) of
      Emitted vs Complete \<Rightarrow>
        delivered net = Emitted vs Complete \<and> filter is_chain_error (fst (run net)) = []
    | Emitted vs (Failure e) \<Rightarrow>
        delivered net = Emitted [None] Complete \<and>
        filter is_chain_error (fst (run net)) = [LogChainError (message e)])"
proof
  obtain n es where c: "chain net t = (n, t @ es, (\<lambda>l. l))" and ss: "single_shot n"
    by (rule chain_shape)
  from ss show "\<exists>v. fst (flow net t) = Emitted [v] Complete"
    using c by (cases rule: single_shot_cases)
      (simp_all add: flow_chain finalize_def catchError_def recover_def of_value_def)
next
  obtain n es where c: "chain net [] = (n, [] @ es, (\<lambda>l. l))" and es: "list_all pipeline_event es"
    and ss: "single_shot n"
    by (rule chain_shape)
  from ss show "case fst (chain net []) of
      Emitted vs Complete \<Rightarrow>
        delivered net = Emitted vs Complete \<and> filter is_chain_error (fst (run net)) = []
    | Emitted vs (Failure e) \<Rightarrow>
        delivered net = Emitted [None] Complete \<and>
        filter is_chain_error (fst (run net)) = [LogChainError (message e)]"
  proof (cases rule: single_shot_cases)
    case (Next v)
    obtain x es' where r: "on_result v es = (x, es @ es')" and es': "list_all result_event es'"
      by (rule on_result_shape)
    from c Next r have "fst (run net) = es @ es' @ [LogFinalize]"
      by (cases x) (simp_all add: run_def subscribe_def flow_chain finalize_def catchError_def
          on_finalize_def emit_def)
    with c Next es es' show ?thesis
      by (simp add: delivered_def flow_chain finalize_def catchError_def
          pipeline_event_not_error result_event_not_error)
  next
    case (Failed e)
    from c Failed have "fst (run net) = es @ [LogChainError (message e), LogFinalize]"
      by (simp add: run_def subscribe_def flow_chain finalize_def catchError_def recover_def
          of_value_def on_finalize_def emit_def on_result_def)
    with c Failed es show ?thesis
      by (simp add: delivered_def flow_chain finalize_def catchError_def recover_def of_value_def
          pipeline_event_not_error)
  qed
qed

theorem errors_recovered_witness:
  "delivered no_users_net = Next None \<and>
   filter is_chain_error (fst (run no_users_net)) = [LogChainError ''No hay usuarios disponibles.'']"
proof -
  have "fst (chain no_users_net []) = Failed (Error ''No hay usuarios disponibles.'')"
    by code_simp
  then show ?thesis
    using errors_recovered [of no_users_net "[]"] by simp
qed

text \<open>
  C3. Whatever the network answers, the log of a run ends with the line of \<^verbatim>\<open>finalize\<close>
  and holds it nowhere else: the hook runs exactly once, after the subscriber has been
  given the outcome. The hook changes neither what the pipe it is attached to delivers
  nor its log.
\<close>

theorem finalize_once:
  "(\<exists>pre. fst (run net) = pre @ [LogFinalize] \<and> LogFinalize \<notin> set pre) \<and>
   count_list (fst (run net)) LogFinalize = 1 \<and>
   fst (flow net t) = fst (catchError recover (chain net) t) \<and>
   fst (snd (flow net t)) = fst (snd (catchError recover (chain net) t))"
proof -
  obtain n es where c: "chain net [] = (n, [] @ es, (\<lambda>l. l))" and es: "list_all pipeline_event es"
    and ss: "single_shot n"
    by (rule chain_shape)
  from ss have "\<exists>pre. fst (run net) = pre @ [LogFinalize] \<and> LogFinalize \<notin> set pre"
  proof (cases rule: single_shot_cases)
    case (Next v)
    obtain x es' where r: "on_result v es = (x, es @ es')" and es': "list_all result_event es'"
      by (rule on_result_shape)
    from c Next r have "fst (run net) = (es @ es') @ [LogFinalize]"
      by (cases x) (simp_all add: run_def subscribe_def flow_chain finalize_def catchError_def
          on_finalize_def emit_def)
    moreover from es es' have "LogFinalize \<notin> set (es @ es')"
      by (simp add: pipeline_event_not_finalize result_event_not_finalize)
    ultimately show ?thesis by blast
  next
    case (Failed e)
    from c Failed have "fst (run net) = (es @ [LogChainError (message e)]) @ [LogFinalize]"
      by (simp add: run_def subscribe_def flow_chain finalize_def catchError_def recover_def
          of_value_def on_finalize_def emit_def on_result_def)
    moreover from es have "LogFinalize \<notin> set (es @ [LogChainError (message e)])"
      by (simp add: pipeline_event_not_finalize)
    ultimately show ?thesis by blast
  qed
  then obtain pre where p: "fst (run net) = pre @ [LogFinalize]" "LogFinalize \<notin> set pre"
    by blast
  then have "count_list (fst (run net)) LogFinalize = 1"
    by (simp add: count_list_0_iff)
  moreover have "fst (flow net t) = fst (catchError recover (chain net) t)"
    "fst (snd (flow net t)) = fst (snd (catchError recover (chain net) t))"
    by (simp_all add: flow_chain finalize_def split: prod.splits)
  ultimately show ?thesis using p by blast
qed

theorem finalize_once_witness:
  "count_list (fst (run example_net)) LogFinalize = 1 \<and>
   count_list (fst (run no_users_net)) LogFinalize = 1 \<and>
   last (fst (run example_net)) = LogFinalize"
proof -
  obtain pre where "fst (run example_net) = pre @ [LogFinalize]"
    using finalize_once [of example_net "[]"] by blast
  then show ?thesis
    using finalize_once [of example_net "[]"] finalize_once [of no_users_net "[]"] by simp
qed

section \<open>The stages on a network that answers\<close>

lemma payload_SomeE:
  assumes "payload net url = Some j"
  obtains res where "net url = Inr res" and "ok res" and "body res = Inr j"
  using assms by (auto simp: payload_def split: sum.splits if_splits)

lemma httpGetJson_payload:
  assumes "payload net url = Some j"
  shows "httpGetJson net url t = (Next j, t @ [HttpGet url, ReadJson url], (\<lambda>l. l))"
proof -
  from assms obtain res where "net url = Inr res" "ok res" "body res = Inr j"
    by (rule payload_SomeE)
  then show ?thesis
    by (simp add: httpGetJson_def switchMap_def from_promise_def emit_def)
qed

lemma httpGetJson_Next_iff:
  "fst (httpGetJson net url t) = Next j \<longleftrightarrow> payload net url = Some j"
  by (auto simp: httpGetJson_def switchMap_def from_promise_def throwError_def payload_def
      split: sum.splits)

lemma getUsers_Next:
  assumes "payload net users_url = Some (JArr js)" and "map_result project_user js = Inr us"
  shows "getUsers net t = (Next us, t @ [HttpGet users_url, ReadJson users_url], (\<lambda>l. l))"
  using assms by (simp add: getUsers_def map_op_def httpGetJson_payload)

lemma selection_Next:
  assumes "payload net users_url = Some (JArr js)" and "map_result project_user js = Inr (u # us)"
    and "template (user_id u) = Inr uid" and "template (user_name u) = Inr un"
    and "template (user_email u) = Inr um"
  shows "tap check_user (map_op first_user (tap log_users (getUsers net))) t =
    (Next (Some u),
     t @ [HttpGet users_url, ReadJson users_url, LogUsersReceived (Suc (length us)),
          LogUserSelected uid un um],
     (\<lambda>l. l))"
  using assms
  by (simp add: getUsers_Next tap_def map_op_def log_users_def first_user_def check_user_def
      log_line_def fill3_def emit_def)

lemma selection_empty:
  assumes "payload net users_url = Some (JArr [])"
  shows "tap check_user (map_op first_user (tap log_users (getUsers net))) t =
    (Failed (Error ''No hay usuarios disponibles.''),
     t @ [HttpGet users_url, ReadJson users_url, LogUsersReceived 0],
     (\<lambda>l. l))"
  using assms getUsers_Next [of net "[]" "[]" t]
  by (simp add: tap_def map_op_def log_users_def first_user_def check_user_def
      log_line_def throw_def emit_def)

lemma posts_of_user_Next:
  assumes "template (user_id u) = Inr uid" and "payload net (posts_url uid) = Some (JArr js)"
    and "map_result project_post js = Inr ps"
  shows "posts_of_user net (Some u) t =
    (Next (u, ps), t @ [HttpGet (posts_url uid), ReadJson (posts_url uid)], (\<lambda>l. l))"
  using assms
  by (simp add: posts_of_user_def getUserPosts_def fill1_def map_op_def httpGetJson_payload)

lemma comments_of_first_post_Next:
  assumes "template (post_id p) = Inr pid" and "template (post_title p) = Inr pt"
    and "payload net (comments_url pid) = Some (JArr js)"
    and "map_result project_comment js = Inr cs"
  shows "comments_of_first_post net (u, p # ps) t =
    (Next (Some \<lparr>user = u, post = p, comments = cs\<rparr>),
     t @ [LogFirstPost pid pt, HttpGet (comments_url pid), ReadJson (comments_url pid)],
     (\<lambda>l. l))"
  using assms
  by (simp add: comments_of_first_post_def getPostComments_def fill1_def fill2_def map_op_def
      httpGetJson_payload emit_def)

text \<open>
  Payloads of the shape the endpoints document meet the conditions used below: an
  object projects whatever its fields, an array without \<^verbatim>\<open>null\<close> projects element by
  element, and numbers, strings and absent fields convert to strings.
\<close>

lemma project_user_object:
  "project_user (JObj kvs) =
     Inr \<lparr>user_id = map_of kvs ''id'', user_name = map_of kvs ''name'',
          user_email = map_of kvs ''email''\<rparr>"
  by (simp add: project_user_def)

lemma project_post_object:
  "project_post (JObj kvs) = Inr \<lparr>post_id = map_of kvs ''id'', post_title = map_of kvs ''title''\<rparr>"
  by (simp add: project_post_def)

lemma project_comment_object:
  "project_comment (JObj kvs) =
     Inr \<lparr>comment_id = map_of kvs ''id'', comment_name = map_of kvs ''name'',
          comment_email = map_of kvs ''email''\<rparr>"
  by (simp add: project_comment_def)

lemma get_prop_not_null: "j \<noteq> JNull \<Longrightarrow> \<exists>v. get_prop j k = Inr v"
  by (cases j) simp_all

lemma map_result_total:
  assumes "\<And>x. x \<in> set xs \<Longrightarrow> \<exists>y. f x = Inr y"
  shows "\<exists>ys. map_result f xs = Inr ys"
  using assms
proof (induction xs)
  case Nil
  then show ?case by simp
next
  case (Cons x xs)
  then obtain y ys where "f x = Inr y" "map_result f xs = Inr ys"
    by (metis list.set_intros(1) list.set_intros(2))
  then show ?case by simp
qed

lemma project_user_not_null: "j \<noteq> JNull \<Longrightarrow> \<exists>u. project_user j = Inr u"
  by (cases j) (simp_all add: project_user_def)

lemma project_users_total: "JNull \<notin> set js \<Longrightarrow> \<exists>us. map_result project_user js = Inr us"
  by (rule map_result_total) (metis project_user_not_null)

lemma template_primitive:
  "template None = Inr ''undefined''"
  "template (Some (JNum n)) = Inr n"
  "template (Some (JStr s)) = Inr s"
  by simp_all

lemma map_result_length: "map_result f xs = Inr ys \<Longrightarrow> length ys = length xs"
  by (induction xs arbitrary: ys) (auto split: sum.splits)

lemma project_post_not_null: "j \<noteq> JNull \<Longrightarrow> \<exists>p. project_post j = Inr p"
  by (cases j) (simp_all add: project_post_def)

lemma project_posts_total: "JNull \<notin> set js \<Longrightarrow> \<exists>ps. map_result project_post js = Inr ps"
  by (rule map_result_total) (metis project_post_not_null)

lemma project_comments_objects:
  "map_result project_comment (map JObj kcs) =
     Inr (map (\<lambda>kc. \<lparr>comment_id = map_of kc ''id'', comment_name = map_of kc ''name'',
                       comment_email = map_of kc ''email''\<rparr>) kcs)"
  by (induction kcs) (simp_all add: project_comment_object)

lemma chain_unfold:
  "chain net =
     switchMap (comments_of_first_post net)
       (tap log_posts
          (switchMap (posts_of_user net)
             (tap check_user (map_op first_user (tap log_users (getUsers net))))))"
  by (simp add: chain_def Let_def)

lemma run_unfold:
  "run net = subscribe (finalize on_finalize (catchError recover (chain net))) on_result []"
  by (simp add: run_def flow_chain)


lemma chain_Next:
  assumes "payload net users_url = Some (JArr (ju # jus))"
    and "project_user ju = Inr u" and "map_result project_user jus = Inr us"
    and "template (user_id u) = Inr uid" and "template (user_name u) = Inr un"
    and "template (user_email u) = Inr um"
    and "payload net (posts_url uid) = Some (JArr (jp # jps))"
    and "project_post jp = Inr p" and "map_result project_post jps = Inr ps"
    and "template (post_id p) = Inr pid" and "template (post_title p) = Inr pt"
    and "payload net (comments_url pid) = Some (JArr jcs)"
    and "map_result project_comment jcs = Inr cs"
  shows "chain net t =
    (Next (Some \<lparr>user = u, post = p, comments = cs\<rparr>),
     t @ [HttpGet users_url, ReadJson users_url, LogUsersReceived (Suc (length us)),
          LogUserSelected uid un um, HttpGet (posts_url uid), ReadJson (posts_url uid),
          LogUserPosts (Suc (length ps)), LogFirstPost pid pt, HttpGet (comments_url pid),
          ReadJson (comments_url pid)],
     (\<lambda>l. l))"
proof -
  from assms(2,3) have us: "map_result project_user (ju # jus) = Inr (u # us)" by simp
  from assms(8,9) have ps: "map_result project_post (jp # jps) = Inr (p # ps)" by simp
  show ?thesis
    using selection_Next [OF assms(1) us assms(4,5,6), of t]
      posts_of_user_Next [OF assms(4) assms(7) ps]
      comments_of_first_post_Next [OF assms(10,11,12,13)]
    by (simp add: chain_unfold switchMap_def tap_def log_posts_def log_line_def emit_def)
qed

section \<open>The outcomes of a run\<close>

text \<open>
  C1. When the users lookup delivers an array whose first element is an object with a
  number as \<^verbatim>\<open>id\<close> and strings as \<^verbatim>\<open>name\<close> and \<^verbatim>\<open>email\<close>, the lookup of the posts of that
  identifier delivers an array whose first element is an object with a number as \<^verbatim>\<open>id\<close>
  and a string as \<^verbatim>\<open>title\<close>, the lookup of the comments of that post delivers an array of
  objects, and no other user or post is \<^verbatim>\<open>null\<close>, the pipe delivers exactly the result
  whose user holds the \<^verbatim>\<open>id\<close>, \<^verbatim>\<open>name\<close> and \<^verbatim>\<open>email\<close> of the first user, whose post holds the
  \<^verbatim>\<open>id\<close> and \<^verbatim>\<open>title\<close> of the first post, and whose comments hold, element by element, the
  \<^verbatim>\<open>id\<close>, \<^verbatim>\<open>name\<close> and \<^verbatim>\<open>email\<close> properties of the comments, after the three requests and
  the four progress lines. The scenario of the specification is the instance below.
\<close>

theorem pipeline_success:
  assumes "payload net users_url = Some (JArr (JObj ku # jus))" and "JNull \<notin> set jus"
    and "map_of ku ''id'' = Some (JNum uid)" and "map_of ku ''name'' = Some (JStr un)"
    and "map_of ku ''email'' = Some (JStr um)"
    and "payload net (posts_url uid) = Some (JArr (JObj kp # jps))" and "JNull \<notin> set jps"
    and "map_of kp ''id'' = Some (JNum pid)" and "map_of kp ''title'' = Some (JStr pt)"
    and "payload net (comments_url pid) = Some (JArr (map JObj kcs))"
  shows "delivered net =
      Emitted [Some
        \<lparr>user = \<lparr>user_id = Some (JNum uid), user_name = Some (JStr un),
                  user_email = Some (JStr um)\<rparr>,
         post = \<lparr>post_id = Some (JNum pid), post_title = Some (JStr pt)\<rparr>,
         comments =
           map (\<lambda>kc. \<lparr>comment_id = map_of kc ''id'', comment_name = map_of kc ''name'',
                         comment_email = map_of kc ''email''\<rparr>) kcs\<rparr>] Complete \<and>
    fst (snd (flow net [])) =
      [HttpGet users_url, ReadJson users_url, LogUsersReceived (Suc (length jus)),
       LogUserSelected uid un um, HttpGet (posts_url uid), ReadJson (posts_url uid),
       LogUserPosts (Suc (length jps)), LogFirstPost pid pt, HttpGet (comments_url pid),
       ReadJson (comments_url pid)]"
proof -
  let ?u = "\<lparr>user_id = Some (JNum uid), user_name = Some (JStr un), user_email = Some (JStr um)\<rparr>"
  let ?p = "\<lparr>post_id = Some (JNum pid), post_title = Some (JStr pt)\<rparr>"
  from assms(2) obtain us where us: "map_result project_user jus = Inr us"
    using project_users_total by blast
  from assms(7) obtain ps where ps: "map_result project_post jps = Inr ps"
    using project_posts_total by blast
  have u: "project_user (JObj ku) = Inr ?u"
    using assms(3,4,5) by (simp add: project_user_object)
  have p: "project_post (JObj kp) = Inr ?p"
    using assms(8,9) by (simp add: project_post_object)
  have "chain net [] = (Next (Some \<lparr>user = ?u, post = ?p,
      comments = map (\<lambda>kc. \<lparr>comment_id = map_of kc ''id'', comment_name = map_of kc ''name'',
                         comment_email = map_of kc ''email''\<rparr>) kcs\<rparr>),
     [] @ [HttpGet users_url, ReadJson users_url, LogUsersReceived (Suc (length us)),
          LogUserSelected uid un um, HttpGet (posts_url uid), ReadJson (posts_url uid),
          LogUserPosts (Suc (length ps)), LogFirstPost pid pt, HttpGet (comments_url pid),
          ReadJson (comments_url pid)],
     (\<lambda>l. l))"
    by (rule chain_Next [OF assms(1) u us _ _ _ assms(6) p ps _ _ assms(10) project_comments_objects])
      simp_all
  then show ?thesis
    using map_result_length [OF us] map_result_length [OF ps]
    by (simp add: delivered_def flow_chain finalize_def catchError_def)
qed

theorem pipeline_success_witness:
  "delivered example_net =
     Emitted [Some
       \<lparr>user = \<lparr>user_id = Some (JNum ''1''), user_name = Some (JStr ''Leanne''),
                 user_email = Some (JStr ''a@b.com'')\<rparr>,
        post = \<lparr>post_id = Some (JNum ''1''), post_title = Some (JStr ''T1'')\<rparr>,
        comments = [\<lparr>comment_id = Some (JNum ''1''), comment_name = Some (JStr ''C''),
                     comment_email = Some (JStr ''c@d.com'')\<rparr>]\<rparr>] Complete"
proof -
  have h1: "payload example_net users_url =
      Some (JArr (JObj [(''id'', JNum ''1''), (''name'', JStr ''Leanne''), (''email'', JStr ''a@b.com'')] # []))"
    by code_simp
  have h6: "payload example_net (posts_url ''1'') =
      Some (JArr (JObj [(''id'', JNum ''1''), (''title'', JStr ''T1'')] # []))"
    by code_simp
  have h10: "payload example_net (comments_url ''1'') =
      Some (JArr (map JObj [[(''id'', JNum ''1''), (''name'', JStr ''C''), (''email'', JStr ''c@d.com'')]]))"
    by code_simp
  from pipeline_success [OF h1 _ _ _ _ h6 _ _ _ h10] show ?thesis by simp
qed

text \<open>
  C4. When the users lookup delivers the empty array, the run is exactly: the request for
  the users, the reading of its body, the count line, the error line with the message of
  the empty users collection, and the finalize line. No other request is issued and the
  subscriber is given \<^verbatim>\<open>null\<close>.
\<close>

theorem empty_users_run:
  assumes "payload net users_url = Some (JArr [])"
  shows "run net =
    ([HttpGet users_url, ReadJson users_url, LogUsersReceived 0,
      LogChainError ''No hay usuarios disponibles.'', LogFinalize], None) \<and>
    delivered net = Next None"
proof -
  have "chain net [] =
    (Failed (Error ''No hay usuarios disponibles.''),
     [HttpGet users_url, ReadJson users_url, LogUsersReceived 0], (\<lambda>l. l))"
    using selection_empty [OF assms, of "[]"] by (simp add: chain_unfold switchMap_def tap_def)
  then show ?thesis
    by (simp add: run_unfold delivered_def flow_chain subscribe_def finalize_def catchError_def
        recover_def of_value_def on_result_def on_finalize_def emit_def)
qed

theorem empty_users_run_witness:
  "payload no_users_net users_url = Some (JArr []) \<and>
   run no_users_net =
     ([HttpGet users_url, ReadJson users_url, LogUsersReceived 0,
       LogChainError ''No hay usuarios disponibles.'', LogFinalize], None)"
proof -
  have h: "payload no_users_net users_url = Some (JArr [])" by code_simp
  from empty_users_run [OF h] h show ?thesis by simp
qed







section \<open>A refused request stops the run\<close>

lemma quiet_log_line: "(\<And>ev. line = Inr ev \<Longrightarrow> ev \<noteq> HttpGet url) \<Longrightarrow> quiet url (log_line line)"
  by (cases line) (auto simp: quiet_def log_line_def emit_def)

lemma quiet_throw: "quiet url (throw e)"
  by (simp add: quiet_def throw_def)

lemma stops_at_runE:
  assumes "stops_at url e obs"
  obtains n es where "obs t = (n, t @ es, (\<lambda>l. l))" and "single_shot n"
    and "HttpGet url \<in> set es \<longrightarrow> n = Emitted [] (Failure e) \<and> (\<exists>pre. es = pre @ [HttpGet url])"
  using assms unfolding stops_at_def by blast

lemma stops_at_throwError: "stops_at url e (throwError e')"
  by (simp add: stops_at_def throwError_def)

lemma stops_at_map_op:
  assumes "stops_at url e src"
  shows "stops_at url e (map_op f src)"
  unfolding stops_at_def
proof
  fix t
  from assms obtain n es where s: "src t = (n, t @ es, (\<lambda>l. l))" and ss: "single_shot n"
    and h: "HttpGet url \<in> set es \<longrightarrow> n = Emitted [] (Failure e) \<and> (\<exists>pre. es = pre @ [HttpGet url])"
    by (rule stops_at_runE)
  from ss show "\<exists>n es. map_op f src t = (n, t @ es, (\<lambda>l. l)) \<and> single_shot n \<and>
      (HttpGet url \<in> set es \<longrightarrow> n = Emitted [] (Failure e) \<and> (\<exists>pre. es = pre @ [HttpGet url]))"
  proof (cases rule: single_shot_cases)
    case (Failed e')
    with s h show ?thesis by (simp add: map_op_def)
  next
    case (Next v)
    with s h show ?thesis by (cases "f v") (simp_all add: map_op_def)
  qed
qed

lemma stops_at_tap:
  assumes "stops_at url e src" and "\<And>v. quiet url (cb v)"
  shows "stops_at url e (tap cb src)"
  unfolding stops_at_def
proof
  fix t
  from assms(1) obtain n es where s: "src t = (n, t @ es, (\<lambda>l. l))" and ss: "single_shot n"
    and h: "HttpGet url \<in> set es \<longrightarrow> n = Emitted [] (Failure e) \<and> (\<exists>pre. es = pre @ [HttpGet url])"
    by (rule stops_at_runE)
  from ss show "\<exists>n es. tap cb src t = (n, t @ es, (\<lambda>l. l)) \<and> single_shot n \<and>
      (HttpGet url \<in> set es \<longrightarrow> n = Emitted [] (Failure e) \<and> (\<exists>pre. es = pre @ [HttpGet url]))"
  proof (cases rule: single_shot_cases)
    case (Failed e')
    with s h show ?thesis by (simp add: tap_def)
  next
    case (Next v)
    from assms(2) [of v] obtain r es' where c: "cb v (t @ es) = (r, (t @ es) @ es')"
      and q: "HttpGet url \<notin> set es'"
      unfolding quiet_def by blast
    from Next h have "HttpGet url \<notin> set es" by auto
    with q have "HttpGet url \<notin> set (es @ es')" by simp
    moreover from s Next c
    have "\<exists>n'. tap cb src t = (n', t @ (es @ es'), (\<lambda>l. l)) \<and> single_shot n'"
      by (cases r) (simp_all add: tap_def)
    ultimately show ?thesis by blast
  qed
qed

lemma stops_at_switchMap:
  assumes "stops_at url e src" and "\<And>v. stops_at url e (project v)"
  shows "stops_at url e (switchMap project src)"
  unfolding stops_at_def
proof
  fix t
  from assms(1) obtain n es where s: "src t = (n, t @ es, (\<lambda>l. l))" and ss: "single_shot n"
    and h: "HttpGet url \<in> set es \<longrightarrow> n = Emitted [] (Failure e) \<and> (\<exists>pre. es = pre @ [HttpGet url])"
    by (rule stops_at_runE)
  from ss show "\<exists>n es. switchMap project src t = (n, t @ es, (\<lambda>l. l)) \<and> single_shot n \<and>
      (HttpGet url \<in> set es \<longrightarrow> n = Emitted [] (Failure e) \<and> (\<exists>pre. es = pre @ [HttpGet url]))"
  proof (cases rule: single_shot_cases)
    case (Failed e')
    with s h show ?thesis by (simp add: switchMap_def)
  next
    case (Next v)
    from assms(2) [of v] obtain n' es' where c: "project v (t @ es) = (n', (t @ es) @ es', (\<lambda>l. l))"
      and ss': "single_shot n'"
      and h': "HttpGet url \<in> set es' \<longrightarrow> n' = Emitted [] (Failure e) \<and> (\<exists>pre. es' = pre @ [HttpGet url])"
      by (rule stops_at_runE)
    from Next h have no: "HttpGet url \<notin> set es" by auto
    from ss' s Next c have eq: "switchMap project src t = (n', t @ (es @ es'), (\<lambda>l. l))"
      by (cases rule: single_shot_cases) (simp_all add: switchMap_def)
    have "HttpGet url \<in> set (es @ es') \<longrightarrow>
      n' = Emitted [] (Failure e) \<and> (\<exists>pre. es @ es' = pre @ [HttpGet url])"
    proof
      assume "HttpGet url \<in> set (es @ es')"
      with no have "HttpGet url \<in> set es'" by simp
      with h' obtain pre where "n' = Emitted [] (Failure e)" "es' = pre @ [HttpGet url]" by blast
      then have "n' = Emitted [] (Failure e)" "es @ es' = (es @ pre) @ [HttpGet url]" by simp_all
      then show "n' = Emitted [] (Failure e) \<and> (\<exists>pre. es @ es' = pre @ [HttpGet url])" by blast
    qed
    with eq ss' show ?thesis by blast
  qed
qed

lemma stops_at_emit_then:
  assumes "ev \<noteq> HttpGet url" and "stops_at url e obs"
  shows "stops_at url e (\<lambda>t. obs (emit ev t))"
  unfolding stops_at_def
proof
  fix t
  from assms(2) obtain n es where s: "obs (t @ [ev]) = (n, (t @ [ev]) @ es, (\<lambda>l. l))"
    and ss: "single_shot n"
    and h: "HttpGet url \<in> set es \<longrightarrow> n = Emitted [] (Failure e) \<and> (\<exists>pre. es = pre @ [HttpGet url])"
    by (rule stops_at_runE)
  have "HttpGet url \<in> set (ev # es) \<longrightarrow>
    n = Emitted [] (Failure e) \<and> (\<exists>pre. ev # es = pre @ [HttpGet url])"
  proof
    assume "HttpGet url \<in> set (ev # es)"
    with assms(1) have "HttpGet url \<in> set es" by auto
    with h obtain pre where "n = Emitted [] (Failure e)" "es = pre @ [HttpGet url]" by blast
    then have "n = Emitted [] (Failure e)" "ev # es = (ev # pre) @ [HttpGet url]" by simp_all
    then show "n = Emitted [] (Failure e) \<and> (\<exists>pre. ev # es = pre @ [HttpGet url])" by blast
  qed
  moreover from s have "obs (emit ev t) = (n, t @ (ev # es), (\<lambda>l. l))"
    by (simp add: emit_def)
  ultimately show "\<exists>n es. obs (emit ev t) = (n, t @ es, (\<lambda>l. l)) \<and> single_shot n \<and>
      (HttpGet url \<in> set es \<longrightarrow> n = Emitted [] (Failure e) \<and> (\<exists>pre. es = pre @ [HttpGet url]))"
    using ss by blast
qed

lemma httpGetJson_refused:
  assumes "net url = Inr res" and "\<not> ok res"
  shows "httpGetJson net url t =
    (Failed (Error (''HTTP '' @ show_nat (status res) @ '' en '' @ url)), t @ [HttpGet url], (\<lambda>l. l))"
  using assms by (simp add: httpGetJson_def switchMap_def from_promise_def throwError_def emit_def)

lemma httpGetJson_log:
  "\<exists>n es. httpGetJson net url' t = (n, t @ es, (\<lambda>l. l)) \<and> single_shot n \<and>
     (es = [HttpGet url'] \<or> es = [HttpGet url', ReadJson url'])"
  by (auto simp: httpGetJson_def switchMap_def from_promise_def throwError_def emit_def
      split: sum.splits)

lemma stops_at_httpGetJson:
  assumes "net url = Inr res" and "\<not> ok res"
  shows "stops_at url (Error (''HTTP '' @ show_nat (status res) @ '' en '' @ url)) (httpGetJson net url')"
  unfolding stops_at_def
proof
  fix t
  show "\<exists>n es. httpGetJson net url' t = (n, t @ es, (\<lambda>l. l)) \<and> single_shot n \<and>
      (HttpGet url \<in> set es \<longrightarrow>
       n = Failed (Error (''HTTP '' @ show_nat (status res) @ '' en '' @ url)) \<and>
       (\<exists>pre. es = pre @ [HttpGet url]))"
  proof (cases "url' = url")
    case True
    with httpGetJson_refused [of net url res t, OF assms] show ?thesis by auto
  next
    case False
    with httpGetJson_log [of net url' t] show ?thesis by auto
  qed
qed

lemma stops_at_chain:
  assumes h: "\<And>url'. stops_at url e (httpGetJson net url')"
  shows "stops_at url e (chain net)"
proof -
  have users: "stops_at url e (getUsers net)"
    unfolding getUsers_def by (intro stops_at_map_op h)
  have posts: "stops_at url e (posts_of_user net usr)" for usr
    unfolding posts_of_user_def getUserPosts_def
    by (auto split: option.splits sum.splits intro!: stops_at_throwError stops_at_map_op h)
  have comments: "stops_at url e (comments_of_first_post net up)" for up
    unfolding comments_of_first_post_def getPostComments_def
    by (auto simp: fill2_def split: list.splits sum.splits
        intro!: stops_at_throwError stops_at_emit_then stops_at_map_op h)
  show ?thesis
    unfolding chain_unfold
    by (intro stops_at_switchMap stops_at_tap stops_at_map_op users posts comments)
      (auto simp: log_users_def log_posts_def check_user_def fill3_def
        split: option.splits sum.splits intro!: quiet_log_line quiet_throw)
qed

lemma result_event_not_request: "list_all result_event es \<Longrightarrow> HttpGet url \<notin> set es"
  by (induction es) auto

text \<open>
  C6. For every URL whose response has a status outside 200..299, \<^verbatim>\<open>httpGetJson\<close> fails
  with the error whose message holds the status and the URL, and its log holds the request
  only: the body is not read. In a run that requests such a URL, nothing follows the
  request but the error line with that message and the finalize line, and the
  subscriber is given \<^verbatim>\<open>null\<close>.
\<close>

theorem http_status_error:
  assumes "net url = Inr res" and "status res < 200 \<or> 299 < status res"
  shows "httpGetJson net url t =
      (Failed (Error (''HTTP '' @ show_nat (status res) @ '' en '' @ url)), t @ [HttpGet url],
       (\<lambda>l. l)) \<and>
    (HttpGet url \<in> set (fst (run net)) \<longrightarrow>
       delivered net = Next None \<and>
       (\<exists>pre. run net =
          (pre @ [HttpGet url,
                  LogChainError (''HTTP '' @ show_nat (status res) @ '' en '' @ url),
                  LogFinalize], None)))"
proof
  from assms(2) have nok: "\<not> ok res" by (auto simp: ok_def)
  let ?e = "Error (''HTTP '' @ show_nat (status res) @ '' en '' @ url)"
  show "httpGetJson net url t = (Failed ?e, t @ [HttpGet url], (\<lambda>l. l))"
    by (rule httpGetJson_refused [of net url res t, OF assms(1) nok])
  show "HttpGet url \<in> set (fst (run net)) \<longrightarrow>
       delivered net = Next None \<and>
       (\<exists>pre. run net = (pre @ [HttpGet url, LogChainError (''HTTP '' @ show_nat (status res) @ '' en '' @ url), LogFinalize], None))"
  proof
    assume req: "HttpGet url \<in> set (fst (run net))"
    have "stops_at url ?e (chain net)"
      by (rule stops_at_chain) (rule stops_at_httpGetJson [of net url res, OF assms(1) nok])
    then obtain n es
      where c: "chain net [] = (n, [] @ es, (\<lambda>l. l))" and ss: "single_shot n"
        and h: "HttpGet url \<in> set es \<longrightarrow> n = Failed ?e \<and> (\<exists>pre. es = pre @ [HttpGet url])"
      by (rule stops_at_runE)
    from ss have "HttpGet url \<in> set es"
    proof (cases rule: single_shot_cases)
      case (Failed e')
      with c have "fst (run net) = es @ [LogChainError (message e'), LogFinalize]"
        by (simp add: run_unfold subscribe_def finalize_def catchError_def recover_def
            of_value_def on_finalize_def emit_def on_result_def)
      with req show ?thesis by simp
    next
      case (Next v)
      obtain x es' where r: "on_result v es = (x, es @ es')" and es': "list_all result_event es'"
        by (rule on_result_shape)
      from c Next r have "fst (run net) = es @ es' @ [LogFinalize]"
        by (cases x) (simp_all add: run_unfold subscribe_def finalize_def catchError_def
            on_finalize_def emit_def)
      with req result_event_not_request [OF es'] show ?thesis by simp
    qed
    with h obtain pre where n: "n = Failed ?e" and es: "es = pre @ [HttpGet url]" by blast
    with c have "run net = (pre @ [HttpGet url, LogChainError (message ?e), LogFinalize], None)"
      "delivered net = Next None"
      by (simp_all add: run_unfold delivered_def flow_chain subscribe_def finalize_def
          catchError_def recover_def of_value_def on_finalize_def emit_def on_result_def)
    then show "delivered net = Next None \<and>
       (\<exists>pre. run net = (pre @ [HttpGet url, LogChainError (''HTTP '' @ show_nat (status res) @ '' en '' @ url), LogFinalize], None))"
      by auto
  qed
qed

theorem http_status_error_witness:
  "run status_500_net =
     ([HttpGet users_url, LogChainError ''HTTP 500 en https://jsonplaceholder.typicode.com/users'',
       LogFinalize], None) \<and>
   delivered posts_404_net = Next None \<and>
   (\<exists>pre. run posts_404_net =
      (pre @ [HttpGet (posts_url ''1''),
              LogChainError ''HTTP 404 en https://jsonplaceholder.typicode.com/users/1/posts'',
              LogFinalize], None))"
proof -
  have a: "status_500_net users_url = Inr \<lparr>status = 500, body = Inr (JArr [])\<rparr>"
    by code_simp
  have b: "posts_404_net (posts_url ''1'') = Inr \<lparr>status = 404, body = Inr (JObj [])\<rparr>"
    by code_simp
  have c: "HttpGet (posts_url ''1'') \<in> set (fst (run posts_404_net))"
    by code_simp
  have d: "run status_500_net =
     ([HttpGet users_url, LogChainError ''HTTP 500 en https://jsonplaceholder.typicode.com/users'',
       LogFinalize], None)"
    by code_simp
  have e: "''HTTP '' @ show_nat 404 @ '' en '' @ posts_url ''1'' =
      ''HTTP 404 en https://jsonplaceholder.typicode.com/users/1/posts''"
    by code_simp
  from http_status_error [of posts_404_net "posts_url ''1''" _ "[]", OF b] c d e
    http_status_error [of status_500_net users_url _ "[]", OF a]
  show ?thesis by simp
qed

section \<open>What a delivered result is made of\<close>

lemma map_values_NextD:
  assumes "map_values f vs en = Emitted [w] Complete"
  obtains v where "vs = [v]" and "en = Complete" and "f v = Inr w"
proof (cases vs)
  case Nil
  with assms show ?thesis by simp
next
  case (Cons v vs')
  with assms have "f v = Inr w \<and> map_values f vs' en = Emitted [] Complete"
    by (cases "f v"; cases "map_values f vs' en") simp_all
  moreover from this have "vs' = [] \<and> en = Complete"
    by (cases vs'; cases "f (hd vs')"; cases "map_values f (tl vs') en") auto
  ultimately show ?thesis using Cons by (auto intro: that)
qed

lemma map_op_NextD:
  assumes "fst (map_op f src t) = Emitted [w] Complete"
  obtains v where "fst (src t) = Emitted [v] Complete" and "f v = Inr w"
proof -
  obtain vs en t1 fin where s: "src t = (Emitted vs en, t1, fin)"
    by (cases "src t") (metis emitted.exhaust)
  with assms have "map_values f vs en = Emitted [w] Complete" by (simp add: map_op_def)
  then obtain v where "vs = [v]" "en = Complete" "f v = Inr w" by (rule map_values_NextD)
  with s show ?thesis by (auto intro: that)
qed

lemma tap_values_NextD:
  assumes "tap_values cb vs en t = (Emitted [w] Complete, t2)"
  shows "vs = [w] \<and> en = Complete \<and> cb w t = (Inr (), t2)"
proof (cases vs)
  case Nil
  with assms show ?thesis by simp
next
  case (Cons v vs')
  obtain r t1 where c: "cb v t = (r, t1)" by (cases "cb v t")
  obtain ws en' t3 where r: "tap_values cb vs' en t1 = (Emitted ws en', t3)"
    by (cases "tap_values cb vs' en t1") (metis emitted.exhaust)
  from assms Cons c r have *: "r = Inr () \<and> v = w \<and> ws = [] \<and> en' = Complete \<and> t3 = t2"
    by (cases r) simp_all
  with r have "vs' = [] \<and> en = Complete \<and> t1 = t2"
    by (cases vs'; cases "cb (hd vs') t1"; cases "fst (cb (hd vs') t1)";
        cases "tap_values cb (tl vs') en (snd (cb (hd vs') t1))";
        cases "fst (tap_values cb (tl vs') en (snd (cb (hd vs') t1)))") auto
  with * c Cons show ?thesis by simp
qed

lemma tap_NextD:
  assumes "fst (tap cb src t) = Emitted [v] Complete"
  obtains t2 where "fst (src t) = Emitted [v] Complete" and "cb v (fst (snd (src t))) = (Inr (), t2)"
proof -
  obtain vs en t1 fin where s: "src t = (Emitted vs en, t1, fin)"
    by (cases "src t") (metis emitted.exhaust)
  obtain n t2 where r: "tap_values cb vs en t1 = (n, t2)" by (cases "tap_values cb vs en t1")
  with assms s have "n = Emitted [v] Complete" by (simp add: tap_def)
  with r have "vs = [v] \<and> en = Complete \<and> cb v t1 = (Inr (), t2)"
    by (simp add: tap_values_NextD)
  with s show ?thesis by (auto intro: that)
qed

lemma switchMap_NextD:
  assumes "fst (switchMap project src t) = Emitted [w] Complete" and "within P src"
  obtains v where "fst (src t) = Emitted [v] Complete"
    and "fst (project v (fst (snd (src t)))) = Emitted [w] Complete"
proof -
  from assms(2) obtain n es where s: "src t = (n, t @ es, (\<lambda>l. l))" and ss: "single_shot n"
    by (rule within_runE)
  from ss show ?thesis
  proof (cases rule: single_shot_cases)
    case (Failed e)
    with assms(1) s show ?thesis by (simp add: switchMap_def)
  next
    case (Next v)
    obtain ws en t2 fin2 where p: "project v (t @ es) = (Emitted ws en, t2, fin2)"
      by (cases "project v (t @ es)") (metis emitted.exhaust)
    with assms(1) s Next have "ws = [w] \<and> en = Complete"
      by (cases en) (simp_all add: switchMap_def)
    with s Next p show ?thesis by (auto intro: that)
  qed
qed

lemma js_map_InrD:
  assumes "js_map var f j = Inr ys"
  obtains xs where "j = JArr xs" and "map_result f xs = Inr ys"
  using assms by (cases j) simp_all

lemma map_result_ConsD:
  assumes "map_result f xs = Inr (y # ys)"
  obtains x xs' where "xs = x # xs'" and "f x = Inr y" and "map_result f xs' = Inr ys"
  using assms by (cases xs) (auto split: sum.splits)

lemma throwError_not_Next: "fst (throwError e t) \<noteq> Next v"
  by (simp add: throwError_def)

lemma getUserPosts_NextD:
  assumes "fst (getUserPosts net i t) = Next j"
  obtains uid where "template i = Inr uid" and "payload net (posts_url uid) = Some j"
  using assms
  by (auto simp: getUserPosts_def fill1_def httpGetJson_Next_iff throwError_not_Next
      split: sum.splits)

lemma getPostComments_NextD:
  assumes "fst (getPostComments net i t) = Next j"
  obtains pid where "template i = Inr pid" and "payload net (comments_url pid) = Some j"
  using assms
  by (auto simp: getPostComments_def fill1_def httpGetJson_Next_iff throwError_not_Next
      split: sum.splits)

lemma getUsers_NextD:
  assumes "fst (getUsers net t) = Next us"
  obtains js where "payload net users_url = Some (JArr js)" and "map_result project_user js = Inr us"
proof -
  from assms obtain j where "fst (httpGetJson net users_url t) = Next j"
    and "js_map ''users'' project_user j = Inr us"
    unfolding getUsers_def by (rule map_op_NextD)
  then show ?thesis
    by (auto simp: httpGetJson_Next_iff elim!: js_map_InrD intro: that)
qed

lemma posts_of_user_NextD:
  assumes "fst (posts_of_user net usr t) = Next up"
  obtains u uid js where "usr = Some u" and "fst up = u" and "template (user_id u) = Inr uid"
    and "payload net (posts_url uid) = Some (JArr js)"
    and "map_result project_post js = Inr (snd up)"
proof (cases usr)
  case None
  with assms show ?thesis by (simp add: posts_of_user_def throwError_not_Next)
next
  case (Some u)
  with assms obtain j where g: "fst (getUserPosts net (user_id u) t) = Next j"
    and m: "(case js_map ''posts'' project_post j of Inl e \<Rightarrow> Inl e | Inr ps \<Rightarrow> Inr (u, ps)) = Inr up"
    unfolding posts_of_user_def by (auto elim: map_op_NextD)
  from m obtain ps where ps: "js_map ''posts'' project_post j = Inr ps" and up: "up = (u, ps)"
    by (auto split: sum.splits)
  from g obtain uid where "template (user_id u) = Inr uid" "payload net (posts_url uid) = Some j"
    by (rule getUserPosts_NextD)
  with ps up Some show ?thesis
    by (auto elim!: js_map_InrD intro: that)
qed

lemma comments_of_first_post_NextD:
  assumes "fst (comments_of_first_post net up t) = Next v"
  obtains p ps pid js cs where "snd up = p # ps" and "template (post_id p) = Inr pid"
    and "payload net (comments_url pid) = Some (JArr js)"
    and "map_result project_comment js = Inr cs"
    and "v = Some \<lparr>user = fst up, post = p, comments = cs\<rparr>"
proof (cases "snd up")
  case Nil
  with assms show ?thesis by (simp add: comments_of_first_post_def throwError_not_Next)
next
  case (Cons p ps)
  show ?thesis
  proof (cases "fill2 LogFirstPost (post_id p) (post_title p)")
    case (Inl e)
    with assms Cons show ?thesis by (simp add: comments_of_first_post_def throwError_not_Next)
  next
    case (Inr line)
    with assms Cons obtain j where g: "fst (getPostComments net (post_id p) (emit line t)) = Next j"
      and m: "(case js_map ''comments'' project_comment j of Inl e \<Rightarrow> Inl e
               | Inr cms \<Rightarrow> Inr (Some \<lparr>user = fst up, post = p, comments = cms\<rparr>)) = Inr v"
      unfolding comments_of_first_post_def by (auto elim: map_op_NextD)
    from m obtain cs where cs: "js_map ''comments'' project_comment j = Inr cs"
      and v: "v = Some \<lparr>user = fst up, post = p, comments = cs\<rparr>"
      by (auto split: sum.splits)
    from g obtain pid where "template (post_id p) = Inr pid"
      "payload net (comments_url pid) = Some j"
      by (rule getPostComments_NextD)
    with cs v Cons show ?thesis
      by (auto elim!: js_map_InrD intro: that)
  qed
qed

lemma within_selection:
  "within pipeline_event (tap check_user (map_op first_user (tap log_users (getUsers net))))"
  by (intro within_tap within_map_op within_getUsers)
    (auto simp: log_users_def check_user_def split: option.splits
      intro!: acts_within_log_line acts_within_throw dest: fill3_LogUserSelected)

lemma within_posts_stage:
  "within pipeline_event
     (tap log_posts
        (switchMap (posts_of_user net)
           (tap check_user (map_op first_user (tap log_users (getUsers net))))))"
  by (intro within_tap within_switchMap within_selection within_posts_of_user)
    (auto simp: log_posts_def intro!: acts_within_log_line)

lemma chain_NextD:
  assumes "fst (chain net t) = Emitted [v] Complete"
  obtains r ju jus uid jp jps pid jcs where "v = Some r"
    and "payload net users_url = Some (JArr (ju # jus))" and "project_user ju = Inr (user r)"
    and "template (user_id (user r)) = Inr uid"
    and "payload net (posts_url uid) = Some (JArr (jp # jps))" and "project_post jp = Inr (post r)"
    and "template (post_id (post r)) = Inr pid"
    and "payload net (comments_url pid) = Some (JArr jcs)"
    and "map_result project_comment jcs = Inr (comments r)"
proof -
  let ?s3 = "tap check_user (map_op first_user (tap log_users (getUsers net)))"
  let ?s5 = "tap log_posts (switchMap (posts_of_user net) ?s3)"
  from assms obtain up where s5: "fst (?s5 t) = Next up"
    and c: "fst (comments_of_first_post net up (fst (snd (?s5 t)))) = Next v"
    unfolding chain_unfold by (rule switchMap_NextD [OF _ within_posts_stage])
  from s5 have "fst (switchMap (posts_of_user net) ?s3 t) = Next up"
    by (rule tap_NextD)
  then obtain usr where s3: "fst (?s3 t) = Next usr"
    and p: "fst (posts_of_user net usr (fst (snd (?s3 t)))) = Next up"
    by (rule switchMap_NextD [OF _ within_selection])
  from s3 have "fst (map_op first_user (tap log_users (getUsers net)) t) = Next usr"
    by (rule tap_NextD)
  then obtain us where "fst (tap log_users (getUsers net) t) = Next us"
    and f: "first_user us = Inr usr"
    by (rule map_op_NextD)
  then have "fst (getUsers net t) = Next us" by (auto elim: tap_NextD)
  then obtain js where users: "payload net users_url = Some (JArr js)"
    and js: "map_result project_user js = Inr us"
    by (rule getUsers_NextD)
  from p obtain u uid jps where usr: "usr = Some u" and u: "fst up = u"
    and uid: "template (user_id u) = Inr uid"
    and posts: "payload net (posts_url uid) = Some (JArr jps)"
    and jps: "map_result project_post jps = Inr (snd up)"
    by (rule posts_of_user_NextD)
  from f usr obtain us' where "us = u # us'"
    by (auto simp: first_user_def split: list.splits)
  with js obtain ju jus where ju: "js = ju # jus" "project_user ju = Inr u"
    by (auto elim: map_result_ConsD)
  from c obtain p' ps pid jcs cs where sp: "snd up = p' # ps"
    and pid: "template (post_id p') = Inr pid"
    and comments: "payload net (comments_url pid) = Some (JArr jcs)"
    and cs: "map_result project_comment jcs = Inr cs"
    and v: "v = Some \<lparr>user = fst up, post = p', comments = cs\<rparr>"
    by (rule comments_of_first_post_NextD)
  from jps sp obtain jp jps' where jp: "jps = jp # jps'" "project_post jp = Inr p'"
    by (auto elim: map_result_ConsD)
  show ?thesis
    by (rule that [of "\<lparr>user = fst up, post = p', comments = cs\<rparr>" ju jus uid jp jps' pid jcs])
      (use v users ju u uid posts jp pid comments cs in simp_all)
qed

lemma delivered_chain:
  "delivered net =
     (case fst (chain net []) of
        Emitted vs Complete \<Rightarrow> Emitted vs Complete
      | Emitted vs (Failure e) \<Rightarrow> Emitted (vs @ [None]) Complete)"
proof -
  obtain vs en t1 fin where c: "chain net [] = (Emitted vs en, t1, fin)"
    by (cases "chain net []") (metis emitted.exhaust)
  then show ?thesis
    by (cases en)
      (simp_all add: delivered_def flow_chain finalize_def catchError_def recover_def of_value_def)
qed

text \<open>
  C7. Whatever the network answers, the pipe delivers exactly one value and completes.
  The value is \<^verbatim>\<open>null\<close>, or a result whose user is the projection of the first element of the users payload,
  whose post is the projection of the first element of the payload fetched at the posts
  URL of that user's identifier, and whose comments are the projections of the payload
  fetched at the comments URL of that post's identifier.
\<close>

theorem result_consistent:
  "delivered net = Emitted [None] Complete \<or>
   (\<exists>r ju jus uid jp jps pid jcs.
      delivered net = Emitted [Some r] Complete \<and>
      payload net users_url = Some (JArr (ju # jus)) \<and> project_user ju = Inr (user r) \<and>
      template (user_id (user r)) = Inr uid \<and>
      payload net (posts_url uid) = Some (JArr (jp # jps)) \<and> project_post jp = Inr (post r) \<and>
      template (post_id (post r)) = Inr pid \<and>
      payload net (comments_url pid) = Some (JArr jcs) \<and>
      map_result project_comment jcs = Inr (comments r))"
proof -
  obtain n es where c: "chain net [] = (n, [] @ es, (\<lambda>l. l))" and ss: "single_shot n"
    by (rule chain_shape)
  from ss show ?thesis
  proof (cases rule: single_shot_cases)
    case (Failed e)
    with c have "delivered net = Emitted [None] Complete"
      by (simp add: delivered_chain)
    then show ?thesis by simp
  next
    case (Next v)
    with c have d: "delivered net = Emitted [v] Complete"
      by (simp add: delivered_chain)
    from c Next have "fst (chain net []) = Emitted [v] Complete" by simp
    then obtain r ju jus uid jp jps pid jcs where "v = Some r"
      "payload net users_url = Some (JArr (ju # jus))" "project_user ju = Inr (user r)"
      "template (user_id (user r)) = Inr uid"
      "payload net (posts_url uid) = Some (JArr (jp # jps))" "project_post jp = Inr (post r)"
      "template (post_id (post r)) = Inr pid"
      "payload net (comments_url pid) = Some (JArr jcs)"
      "map_result project_comment jcs = Inr (comments r)"
      by (rule chain_NextD)
    with d show ?thesis by blast
  qed
qed

theorem result_consistent_witness:
  "\<exists>r ju jus uid jp jps pid jcs.
      delivered example_net = Next (Some r) \<and>
      payload example_net users_url = Some (JArr (ju # jus)) \<and> project_user ju = Inr (user r) \<and>
      template (user_id (user r)) = Inr uid \<and>
      payload example_net (posts_url uid) = Some (JArr (jp # jps)) \<and>
      project_post jp = Inr (post r) \<and>
      template (post_id (post r)) = Inr pid \<and>
      payload example_net (comments_url pid) = Some (JArr jcs) \<and>
      map_result project_comment jcs = Inr (comments r)"
proof -
  have "delivered example_net \<noteq> Next None" by code_simp
  with result_consistent [of example_net] show ?thesis by simp
qed

section \<open>The run depends on the three endpoints only\<close>







lemma agree_on_append [simp]:
  "agree_on net net' (es @ es') \<longleftrightarrow> agree_on net net' es \<and> agree_on net net' es'"
  by (auto simp: agree_on_def)















end
